theory Spec2Isabelle
  imports Main "HOL-Library.Option_ord" "HOL-Library.Product_Lexorder"
begin

section \<open>The phrase store of db.js\<close>

text \<open>
  The model follows \<^verbatim>\<open>class PhraseDB\<close>. The SQLite file is a value of type
  \<open>phrase_db\<close> that every operation takes and returns; a call that throws is a result
  \<open>Inl\<close>, and the store of the caller is then the one it passed in (a single statement
  is atomic, the import runs in one transaction that is rolled back).

  Stored texts are byte strings in UTF-8, the form SQLite keeps them in.
  \<open>CURRENT_TIMESTAMP\<close> is a natural number read from a clock that the caller supplies.
  The file given to the import is any parsed JSON value.
\<close>

subsection \<open>Table, rows and schema\<close>

definition LEVELS :: "string list" where
  "LEVELS = [''A1'', ''A2'', ''B1'', ''B2'', ''C1'', ''C2'']"

record phrase =
  phrase_id :: nat
  ru :: string
  en :: string
  level :: string
  completed :: bool
  created_at :: nat
  updated_at :: nat

text \<open>
  The table in rowid order, and the counter that \<open>AUTOINCREMENT\<close> keeps in
  \<open>sqlite_sequence\<close>.
\<close>

record phrase_db =
  phrases :: "phrase list"
  seq :: nat

definition empty_db :: phrase_db where
  "empty_db = \<lparr>phrases = [], seq = 0\<rparr>"

text \<open>
  What a call can throw: the \<open>Error\<close> of \<open>importPhrases\<close> for a file that is not an
  array; a JavaScript \<open>TypeError\<close> (a property read on \<open>null\<close>, an object that cannot be
  turned into a string); the error with which better-sqlite3 refuses the arguments of
  a statement; and the error with which SQLite fails a constraint.
\<close>

datatype error = NotAnArray | TypeError | BindError | SqliteError

text \<open>
  SQL \<open>length(X)\<close> of a text counts what precedes the first NUL character. Only
  \<open>length(X) > 0\<close> is used, so counting bytes or characters makes no difference.
\<close>

definition sql_length :: "string \<Rightarrow> nat" where
  "sql_length s = length (takeWhile (\<lambda>c. c \<noteq> CHR 0x00) s)"

text \<open>The three \<open>CHECK\<close> constraints of \<open>CREATE TABLE phrases\<close>.\<close>

definition check_constraints :: "string \<Rightarrow> string \<Rightarrow> string \<Rightarrow> bool" where
  "check_constraints r e l \<longleftrightarrow>
     sql_length r > 0 \<and> sql_length e > 0 \<and>
     l \<in> set [''A1'', ''A2'', ''B1'', ''B2'', ''C1'', ''C2'']"

text \<open>
  \<open>AUTOINCREMENT\<close>: the new rowid is one more than the largest rowid the table has ever
  held, which is the larger of the counter and the rowids present.
\<close>

definition next_rowid :: "phrase_db \<Rightarrow> nat" where
  "next_rowid d = Suc (fold max (map phrase_id (phrases d)) (seq d))"

subsection \<open>JavaScript values\<close>

text \<open>
  A JavaScript string is a sequence of UTF-16 code units. It is written here as the
  bytes of the UTF-8 form of its well-formed parts, with every unpaired surrogate kept
  as such (\<open>Lone\<close> and its code unit); a high surrogate directly followed by a low one is
  a pair, hence part of the bytes. Two JavaScript strings are equal when these
  sequences are.
\<close>

datatype jchar = Byte char | Lone nat

type_synonym jstring = "jchar list"

definition js :: "string \<Rightarrow> jstring" where
  "js s = map Byte s"

text \<open>
  What \<open>JSON.parse\<close> returns, and \<open>undefined\<close> for a property that is not there. A
  number is one with an integral value of less than sixteen digits: how other numbers
  print is a matter of floating point and is left out. An object lists its own
  properties in the order of the file.
\<close>

datatype jsval =
  JUndefined
| JNull
| JBool bool
| JNum int
| JStr jstring
| JArr "jsval list"
| JObj "(string \<times> jsval) list"

definition str :: "string \<Rightarrow> jsval" where
  "str s = JStr (js s)"

text \<open>
  \<open>p.k\<close> for one of the keys \<open>ru\<close>, \<open>en\<close>, \<open>level\<close>: a \<open>TypeError\<close> on \<open>null\<close> and
  \<open>undefined\<close>, the last property of that name on an object, and \<open>undefined\<close> on a
  number, a boolean, a string and an array, which have no property of these names.
\<close>

fun js_get :: "jsval \<Rightarrow> string \<Rightarrow> error + jsval" where
  "js_get JUndefined k = Inl TypeError"
| "js_get JNull k = Inl TypeError"
| "js_get (JObj kvs) k = Inr (case map_of (rev kvs) k of None \<Rightarrow> JUndefined | Some v \<Rightarrow> v)"
| "js_get v k = Inr JUndefined"

text \<open>Truthiness, as \<open>&&\<close> tests it.\<close>

fun truthy :: "jsval \<Rightarrow> bool" where
  "truthy JUndefined = False"
| "truthy JNull = False"
| "truthy (JBool b) = b"
| "truthy (JNum n) = (n \<noteq> 0)"
| "truthy (JStr s) = (s \<noteq> [])"
| "truthy (JArr xs) = True"
| "truthy (JObj kvs) = True"

text \<open>\<open>LEVELS.includes(v)\<close>: only a string equal to one of the six is included.\<close>

fun includes_str :: "string list \<Rightarrow> jsval \<Rightarrow> bool" where
  "includes_str xs (JStr s) = (s \<in> set (map js xs))"
| "includes_str xs v = False"

text \<open>A number as JavaScript prints it.\<close>

function digits :: "nat \<Rightarrow> string" where
  "digits n =
     (if n < 10 then [''0123456789'' ! n]
      else digits (n div 10) @ [''0123456789'' ! (n mod 10)])"
  by pat_completeness auto
termination
  by (relation "measure id") auto

definition js_number :: "int \<Rightarrow> string" where
  "js_number n = (if n < 0 then ''-'' else []) @ digits (nat \<bar>n\<bar>)"

text \<open>\<open>Array.prototype.join\<close> with a comma, on elements already turned into strings.\<close>

fun join_comma :: "(error + jstring) list \<Rightarrow> error + jstring" where
  "join_comma [] = Inr []"
| "join_comma [x] = x"
| "join_comma (x # y # ys) =
     (case x of
        Inl err \<Rightarrow> Inl err
      | Inr s \<Rightarrow> (case join_comma (y # ys) of
                   Inl err \<Rightarrow> Inl err
                 | Inr t \<Rightarrow> Inr (s @ js '','' @ t)))"

text \<open>
  A value inside a template literal. An array prints its elements joined by commas,
  \<open>null\<close> among them as nothing; an object prints as \<open>[object Object]\<close>, unless it
  has a property \<open>toString\<close> of its own, which is not a function: the conversion then
  throws.
\<close>

fun template :: "jsval \<Rightarrow> error + jstring" where
  "template JUndefined = Inr (js ''undefined'')"
| "template JNull = Inr (js ''null'')"
| "template (JBool b) = Inr (js (if b then ''true'' else ''false''))"
| "template (JNum n) = Inr (js (js_number n))"
| "template (JStr s) = Inr s"
| "template (JArr xs) =
     join_comma
       (map (\<lambda>x. case x of JUndefined \<Rightarrow> Inr [] | JNull \<Rightarrow> Inr [] | _ \<Rightarrow> template x) xs)"
| "template (JObj kvs) =
     (if ''toString'' \<in> fst ` set kvs then Inl TypeError else Inr (js ''[object Object]''))"

subsection \<open>Binding and insertPhrase\<close>

text \<open>
  A string is stored in UTF-8; an unpaired surrogate has no UTF-8 form and becomes
  U+FFFD. Reading a stored text back gives the string \<open>js\<close> of its bytes.
\<close>

fun utf8 :: "jstring \<Rightarrow> string" where
  "utf8 [] = []"
| "utf8 (Byte c # s) = c # utf8 s"
| "utf8 (Lone n # s) = [CHR 0xEF, CHR 0xBF, CHR 0xBD] @ utf8 s"

text \<open>
  A number is bound as a REAL, which a column of TEXT affinity stores as text with a
  decimal point.
\<close>

definition real_text :: "int \<Rightarrow> string" where
  "real_text n = js_number n @ ''.0''"

text \<open>
  The arguments of \<open>run\<close>: an array stands for its elements, an object carries named
  parameters, of which the statement has none, and every other argument is one value.
\<close>

fun spread :: "jsval \<Rightarrow> jsval list" where
  "spread (JArr xs) = xs"
| "spread (JObj kvs) = []"
| "spread v = [v]"

fun is_object :: "jsval \<Rightarrow> bool" where
  "is_object (JObj kvs) = True"
| "is_object v = False"

text \<open>
  One value bound to one parameter: \<open>None\<close> when it cannot be bound (a boolean, an
  array, an object), otherwise the stored text, or SQL NULL for \<open>null\<close> and
  \<open>undefined\<close>.
\<close>

fun bind_value :: "jsval \<Rightarrow> string option option" where
  "bind_value JUndefined = Some None"
| "bind_value JNull = Some None"
| "bind_value (JNum n) = Some (Some (real_text n))"
| "bind_value (JStr s) = Some (Some (utf8 s))"
| "bind_value v = None"

fun bind_values :: "jsval list \<Rightarrow> string option list option" where
  "bind_values [] = Some []"
| "bind_values (v # vs) =
     (case bind_value v of
        None \<Rightarrow> None
      | Some b \<Rightarrow> (case bind_values vs of None \<Rightarrow> None | Some bs \<Rightarrow> Some (b # bs)))"

text \<open>
  The statement has three parameters; better-sqlite3 throws unless exactly three values
  are given, each can be bound, and at most one argument is an object.
\<close>

definition bind_parameters :: "jsval list \<Rightarrow> string option list option" where
  "bind_parameters args =
     (let vs = concat (map spread args)
      in if length vs = 3 \<and> length (filter is_object args) \<le> 1 then bind_values vs else None)"

text \<open>
  \<open>statements.insertPhrase.run(a, b, c)\<close>:
  \<open>INSERT INTO phrases (ru, en, level, completed) VALUES (?, ?, ?, 0)\<close>. A NULL violates
  \<open>NOT NULL\<close>; both timestamps default to the clock.
\<close>

definition insertPhrase ::
  "nat \<Rightarrow> jsval \<Rightarrow> jsval \<Rightarrow> jsval \<Rightarrow> phrase_db \<Rightarrow> error + phrase_db" where
  "insertPhrase now a b c d =
     (case bind_parameters [a, b, c] of
        None \<Rightarrow> Inl BindError
      | Some [Some r, Some e, Some l] \<Rightarrow>
          if check_constraints r e l then
            Inr (d\<lparr>phrases := phrases d @
                    [\<lparr>phrase_id = next_rowid d, ru = r, en = e, level = l,
                      completed = False, created_at = now, updated_at = now\<rparr>],
                  seq := next_rowid d\<rparr>)
          else Inl SqliteError
      | Some bound \<Rightarrow> Inl SqliteError)"

text \<open>\<open>statements.getAllPhrases\<close>: \<open>SELECT ru, en, level FROM phrases\<close>.\<close>

definition getAllPhrases :: "phrase_db \<Rightarrow> (string \<times> string \<times> string) list" where
  "getAllPhrases d = map (\<lambda>p. (ru p, en p, level p)) (phrases d)"

subsection \<open>importPhrases\<close>

text \<open>
  The three properties that the code reads of a candidate, handed to what it does with
  them.
\<close>

definition with_fields ::
  "jsval \<Rightarrow> (jsval \<Rightarrow> jsval \<Rightarrow> jsval \<Rightarrow> error + 'a) \<Rightarrow> error + 'a" where
  "with_fields p f =
     (case js_get p ''ru'' of
        Inl err \<Rightarrow> Inl err
      | Inr r \<Rightarrow> (case js_get p ''en'' of
                   Inl err \<Rightarrow> Inl err
                 | Inr e \<Rightarrow> (case js_get p ''level'' of
                              Inl err \<Rightarrow> Inl err
                            | Inr l \<Rightarrow> f r e l)))"

text \<open>The callback \<open>(p) => p.ru && p.en && LEVELS.includes(p.level)\<close>.\<close>

definition valid :: "jsval \<Rightarrow> error + bool" where
  "valid p = with_fields p (\<lambda>r e l. Inr (truthy r \<and> truthy e \<and> includes_str LEVELS l))"

text \<open>\<open>phrases.filter(...)\<close>: it stops at the first element on which the callback throws.\<close>

fun filter_valid :: "jsval list \<Rightarrow> error + jsval list" where
  "filter_valid [] = Inr []"
| "filter_valid (p # ps) =
     (case valid p of
        Inl err \<Rightarrow> Inl err
      | Inr keep \<Rightarrow> (case filter_valid ps of
                      Inl err \<Rightarrow> Inl err
                    | Inr vs \<Rightarrow> Inr (if keep then p # vs else vs)))"

text \<open>The key \<open>`${ru}|${en}|${level}`\<close> of three strings.\<close>

definition phrase_key :: "jstring \<Rightarrow> jstring \<Rightarrow> jstring \<Rightarrow> jstring" where
  "phrase_key r e l = r @ js ''|'' @ e @ js ''|'' @ l"

text \<open>
  \<open>existing.map((p) => ...)\<close>, the contents of \<open>existingSet\<close>: the keys of the rows as
  they are read back from the table.
\<close>

definition existing_keys :: "phrase_db \<Rightarrow> jstring list" where
  "existing_keys d = map (\<lambda>(r, e, l). phrase_key (js r) (js e) (js l)) (getAllPhrases d)"

text \<open>\<open>const key = ...\<close> inside the loop, on the values of a candidate.\<close>

definition candidate_key :: "jsval \<Rightarrow> error + jstring" where
  "candidate_key p =
     with_fields p (\<lambda>r e l.
       case template r of
         Inl err \<Rightarrow> Inl err
       | Inr r' \<Rightarrow> (case template e of
                     Inl err \<Rightarrow> Inl err
                   | Inr e' \<Rightarrow> (case template l of
                                 Inl err \<Rightarrow> Inl err
                               | Inr l' \<Rightarrow> Inr (phrase_key r' e' l'))))"

text \<open>
  The body of \<open>insertTx\<close>: the loop over the valid candidates. \<open>existingSet\<close> is the
  set built before the loop and is only read. The clock is read at each insert
  (\<open>clk\<close> is indexed by the counter of the table, so that two inserts may see
  different times).
\<close>

fun insertTx ::
  "jstring list \<Rightarrow> (nat \<Rightarrow> nat) \<Rightarrow> jsval list \<Rightarrow> phrase_db \<times> nat \<times> nat
     \<Rightarrow> error + (phrase_db \<times> nat \<times> nat)" where
  "insertTx existingSet clk [] acc = Inr acc"
| "insertTx existingSet clk (p # ps) (d, inserted, skipped) =
     (case candidate_key p of
        Inl err \<Rightarrow> Inl err
      | Inr key \<Rightarrow>
          if key \<in> set existingSet
          then insertTx existingSet clk ps (d, inserted, Suc skipped)
          else (case with_fields p (\<lambda>r e l. insertPhrase (clk (seq d)) r e l d) of
                  Inl err \<Rightarrow> Inl err
                | Inr d' \<Rightarrow> insertTx existingSet clk ps (d', Suc inserted, skipped)))"

text \<open>
  \<open>importPhrases\<close>, from the parsed file on. The result carries the store after the
  call and what was printed: \<open>None\<close> for the warning that nothing is valid,
  \<open>Some (inserted, skipped)\<close> for the final message.
\<close>

definition importPhrases ::
  "phrase_db \<Rightarrow> (nat \<Rightarrow> nat) \<Rightarrow> jsval \<Rightarrow> error + (phrase_db \<times> (nat \<times> nat) option)" where
  "importPhrases d clk src =
     (case src of
        JArr parsed \<Rightarrow>
          (case filter_valid parsed of
             Inl err \<Rightarrow> Inl err
           | Inr validPhrases \<Rightarrow>
               if validPhrases = [] then Inr (d, None)
               else
                 (case insertTx (existing_keys d) clk validPhrases (d, 0, 0) of
                    Inl err \<Rightarrow> Inl err
                  | Inr (d', inserted, skipped) \<Rightarrow> Inr (d', Some (inserted, skipped))))
      | other \<Rightarrow> Inl NotAnArray)"

subsection \<open>getNextPhrase, updateStatus, getStats\<close>

text \<open>
  The \<open>CASE level\<close> of \<open>getNextPhrase\<close> has no \<open>ELSE\<close>: another level gives NULL,
  which sorts before every number.
\<close>

definition level_rank :: "string \<Rightarrow> nat option" where
  "level_rank l =
     (if l = ''A1'' then Some 1 else if l = ''A2'' then Some 2
      else if l = ''B1'' then Some 3 else if l = ''B2'' then Some 4
      else if l = ''C1'' then Some 5 else if l = ''C2'' then Some 6 else None)"

text \<open>
  \<open>SELECT * FROM phrases WHERE completed = 0 ORDER BY CASE level ... END, updated_at LIMIT 1\<close>,
  and \<open>|| null\<close>. Among rows that tie on both sort keys SQL leaves the choice open; the
  model takes the one with the smallest rowid.
\<close>

definition getNextPhrase :: "phrase_db \<Rightarrow> phrase option" where
  "getNextPhrase d =
     (case sort_key (\<lambda>p. (level_rank (level p), updated_at p))
             (filter (\<lambda>p. \<not> completed p) (phrases d)) of
        [] \<Rightarrow> None
      | p # _ \<Rightarrow> Some p)"

text \<open>
  The trigger \<open>update_timestamp\<close>, run once for each row that an \<open>UPDATE\<close> changed
  (its own update does not fire it again).
\<close>

definition update_timestamp :: "nat \<Rightarrow> nat \<Rightarrow> phrase list \<Rightarrow> phrase list" where
  "update_timestamp now i ps = map (\<lambda>p. if phrase_id p = i then p\<lparr>updated_at := now\<rparr> else p) ps"

text \<open>
  \<open>updateStatus(id, completed)\<close>: \<open>UPDATE phrases SET completed = ?, updated_at =
  CURRENT_TIMESTAMP WHERE id = ?\<close>, then the trigger. The result is \<open>{id, changes}\<close>,
  where \<open>changes\<close> counts the rows the statement itself updated.
\<close>

definition updateStatus :: "phrase_db \<Rightarrow> nat \<Rightarrow> nat \<Rightarrow> bool \<Rightarrow> phrase_db \<times> nat \<times> nat" where
  "updateStatus d now i flag =
     (let hit = filter (\<lambda>p. phrase_id p = i) (phrases d);
          updated = map (\<lambda>p. if phrase_id p = i then p\<lparr>completed := flag, updated_at := now\<rparr> else p)
                      (phrases d);
          fired = fold (\<lambda>p. update_timestamp now (phrase_id p)) hit updated
      in (d\<lparr>phrases := fired\<rparr>, i, length hit))"

datatype stat = Stat (stat_level: string) (total: nat) (stat_completed: nat) (remaining: nat)

text \<open>The \<open>CASE level\<close> of \<open>getStats\<close> ends in \<open>ELSE 6\<close>.\<close>

definition stats_rank :: "string \<Rightarrow> nat" where
  "stats_rank l =
     (if l = ''A1'' then 1 else if l = ''A2'' then 2
      else if l = ''B1'' then 3 else if l = ''B2'' then 4
      else if l = ''C1'' then 5 else 6)"

text \<open>
  One group of \<open>GROUP BY level\<close>: \<open>COUNT(*)\<close> and the two \<open>SUM(CASE ...)\<close> over
  the rows of level \<open>l\<close>.
\<close>

definition group_row :: "phrase_db \<Rightarrow> string \<Rightarrow> stat" where
  "group_row d l =
     (let g = filter (\<lambda>p. level p = l) (phrases d)
      in Stat l (length g) (length (filter completed g))
           (length (filter (\<lambda>p. \<not> completed p) g)))"

text \<open>\<open>SELECT level, COUNT(*), SUM(...), SUM(...) FROM phrases GROUP BY level ORDER BY CASE ...\<close>.\<close>

definition getStats :: "phrase_db \<Rightarrow> stat list" where
  "getStats d =
     sort_key (\<lambda>s. stats_rank (stat_level s))
       (map (group_row d) (remdups (map level (phrases d))))"

subsection \<open>Runs of calls\<close>

text \<open>
  A caller of the module issues calls one after the other on the same store. A call
  that throws leaves the store as it was.
\<close>

datatype call =
  InsertPhrase nat jsval jsval jsval
| ImportPhrases "nat \<Rightarrow> nat" jsval
| UpdateStatus nat nat bool
| GetNextPhrase
| GetStats

fun step :: "phrase_db \<Rightarrow> call \<Rightarrow> phrase_db" where
  "step d (InsertPhrase now a b c) =
     (case insertPhrase now a b c d of Inl err \<Rightarrow> d | Inr d' \<Rightarrow> d')"
| "step d (ImportPhrases clk src) =
     (case importPhrases d clk src of Inl err \<Rightarrow> d | Inr (d', report) \<Rightarrow> d')"
| "step d (UpdateStatus now i flag) = fst (updateStatus d now i flag)"
| "step d GetNextPhrase = d"
| "step d GetStats = d"

definition run :: "phrase_db \<Rightarrow> call list \<Rightarrow> phrase_db" where
  "run d cs = foldl step d cs"

text \<open>What the schema promises of every row, and that rowids are a key.\<close>

definition schema_ok :: "phrase_db \<Rightarrow> bool" where
  "schema_ok d \<longleftrightarrow> list_all (\<lambda>p. check_constraints (ru p) (en p) (level p)) (phrases d)"

definition ids_ok :: "phrase_db \<Rightarrow> bool" where
  "ids_ok d \<longleftrightarrow> distinct (map phrase_id (phrases d))"

subsection \<open>Notions used in the statements and proofs\<close>

text \<open>
  Rowid \<open>i\<close> has been handed out, and every row that carries it is completed.
\<close>

definition marked_done :: "nat \<Rightarrow> phrase_db \<Rightarrow> bool" where
  "marked_done i d \<longleftrightarrow>
     i \<le> fold max (map phrase_id (phrases d)) (seq d) \<and>
     (\<forall>p\<in>set (phrases d). phrase_id p = i \<longrightarrow> completed p)"

text \<open>
  A candidate as section 6 of the specification describes the file: an object whose
  \<open>ru\<close> and \<open>en\<close> are missing or strings without unpaired surrogates.
\<close>

fun is_byte :: "jchar \<Rightarrow> bool" where
  "is_byte (Byte c) = True"
| "is_byte (Lone n) = False"

fun text_field :: "jsval \<Rightarrow> bool" where
  "text_field JUndefined = True"
| "text_field (JStr s) = list_all is_byte s"
| "text_field v = False"

definition plain_candidate :: "jsval \<Rightarrow> bool" where
  "plain_candidate p \<longleftrightarrow>
     is_object p \<and>
     (case js_get p ''ru'' of Inl err \<Rightarrow> False | Inr r \<Rightarrow> text_field r) \<and>
     (case js_get p ''en'' of Inl err \<Rightarrow> False | Inr e \<Rightarrow> text_field e)"

subsection \<open>Sample data\<close>

text \<open>The first phrase of the sample file of \<open>init-db.js\<close>, in UTF-8.\<close>

definition privet :: string where
  "privet = [CHR 0xD0, CHR 0x9F, CHR 0xD1, CHR 0x80, CHR 0xD0, CHR 0xB8,
             CHR 0xD0, CHR 0xB2, CHR 0xD0, CHR 0xB5, CHR 0xD1, CHR 0x82]"

text \<open>The object \<open>{ru: r, en: e, level: l}\<close>.\<close>

definition candidate :: "jsval \<Rightarrow> jsval \<Rightarrow> jsval \<Rightarrow> jsval" where
  "candidate r e l = JObj [(''ru'', r), (''en'', e), (''level'', l)]"

definition hello :: jsval where
  "hello = candidate (str privet) (str ''Hello'') (str ''A1'')"

definition z9 :: jsval where
  "z9 = candidate (str ''X'') (str ''Y'') (str ''Z9'')"

definition sample_batch :: "jsval list" where
  "sample_batch = [hello, hello, z9]"

definition hello_row :: "nat \<Rightarrow> nat \<Rightarrow> phrase" where
  "hello_row i t =
     \<lparr>phrase_id = i, ru = privet, en = ''Hello'', level = ''A1'', completed = False,
      created_at = t, updated_at = t\<rparr>"

text \<open>The store after the sample batch went into an empty one, with the clock \<open>id\<close>.\<close>

definition sample_db :: phrase_db where
  "sample_db = \<lparr>phrases = [hello_row 1 0, hello_row 2 1], seq = 2\<rparr>"

definition row :: "nat \<Rightarrow> string \<Rightarrow> bool \<Rightarrow> nat \<Rightarrow> phrase" where
  "row i l c t =
     \<lparr>phrase_id = i, ru = ''r'', en = ''e'', level = l, completed = c,
      created_at = 0, updated_at = t\<rparr>"

definition mixed_db :: phrase_db where
  "mixed_db =
     \<lparr>phrases = [row 1 ''B1'' False 5, row 2 ''A2'' False 9, row 3 ''A2'' False 4,
                 row 4 ''A1'' True 1],
      seq = 4\<rparr>"

definition done_db :: phrase_db where
  "done_db = \<lparr>phrases = [row 1 ''B1'' True 5, row 2 ''A1'' True 1], seq = 2\<rparr>"

section \<open>Properties of the operations\<close>

subsection \<open>Inserts\<close>

text \<open>
  A successful insert appends one row that satisfies the constraints, whatever the
  arguments were. A stored text read back and stored again is the same text.
\<close>

lemma insertPhrase_Inr:
  assumes "insertPhrase now a b c d = Inr d'"
  shows "\<exists>r e l. check_constraints r e l \<and>
           d' = d\<lparr>phrases := phrases d @
                    [\<lparr>phrase_id = next_rowid d, ru = r, en = e, level = l,
                      completed = False, created_at = now, updated_at = now\<rparr>],
                  seq := next_rowid d\<rparr>"
  using assms by (auto simp: insertPhrase_def split: option.splits list.splits if_splits)

lemma utf8_js: "utf8 (js s) = s"
  by (induction s) (simp_all add: js_def)

lemma bind_parameters_str:
  "bind_parameters [str r, str e, str l] = Some [Some r, Some e, Some l]"
  by (simp add: bind_parameters_def str_def utf8_js)

lemma with_fields_Inr:
  "with_fields p f = Inr x \<Longrightarrow> \<exists>r e l. f r e l = Inr x"
  by (auto simp: with_fields_def split: sum.splits)

lemma importPhrases_Inr:
  assumes "importPhrases d clk src = Inr (d', rep)"
  shows "(rep = None \<and> d' = d) \<or>
         (\<exists>ks vs i s. insertTx ks clk vs (d, 0, 0) = Inr (d', i, s))"
proof (cases src)
  case (JArr parsed)
  with assms show ?thesis
    by (auto simp: importPhrases_def split: sum.splits if_splits)
qed (use assms in \<open>simp_all add: importPhrases_def\<close>)

subsection \<open>updateStatus and getNextPhrase\<close>

text \<open>
  The trigger writes the timestamp that the statement has already written, so the rows
  after \<open>updateStatus\<close> are the rows the \<open>UPDATE\<close> itself produces.
\<close>

lemma update_timestamp_fixed:
  "\<forall>p\<in>set ps. phrase_id p = i \<longrightarrow> updated_at p = now \<Longrightarrow> update_timestamp now i ps = ps"
  unfolding update_timestamp_def by (induction ps) auto

lemma fold_update_timestamp:
  "\<forall>p\<in>set ps. phrase_id p = i \<longrightarrow> updated_at p = now \<Longrightarrow>
   \<forall>h\<in>set hit. phrase_id h = i \<Longrightarrow>
     fold (\<lambda>p. update_timestamp now (phrase_id p)) hit ps = ps"
  by (induction hit) (auto simp: update_timestamp_fixed)

lemma updateStatus_phrases:
  "phrases (fst (updateStatus d now i flag)) =
     map (\<lambda>p. if phrase_id p = i then p\<lparr>completed := flag, updated_at := now\<rparr> else p) (phrases d)"
proof -
  let ?upd = "map (\<lambda>p. if phrase_id p = i then p\<lparr>completed := flag, updated_at := now\<rparr> else p) (phrases d)"
  have "fold (\<lambda>p. update_timestamp now (phrase_id p)) (filter (\<lambda>p. phrase_id p = i) (phrases d)) ?upd = ?upd"
    by (rule fold_update_timestamp) auto
  then show ?thesis by (simp add: updateStatus_def Let_def)
qed

lemma updateStatus_seq: "seq (fst (updateStatus d now i flag)) = seq d"
  by (simp add: updateStatus_def Let_def)

lemma updateStatus_changes:
  "snd (snd (updateStatus d now i flag)) = length (filter (\<lambda>p. phrase_id p = i) (phrases d))"
  by (simp add: updateStatus_def Let_def)

lemma map_id_if_absent:
  "i \<notin> phrase_id ` set ps \<Longrightarrow> map (\<lambda>p. if phrase_id p = i then f p else p) ps = ps"
  by (induction ps) auto

lemma distinct_count_le1:
  "distinct (map f xs) \<Longrightarrow> y \<in> f ` set xs \<Longrightarrow> length (filter (\<lambda>x. f x = y) xs) = 1"
  by (induction xs) (auto simp: filter_empty_conv image_iff)

lemma getNextPhrase_None:
  "getNextPhrase d = None \<longleftrightarrow> (\<forall>p\<in>set (phrases d). completed p)"
proof -
  let ?xs = "filter (\<lambda>p. \<not> completed p) (phrases d)"
  let ?f = "\<lambda>p. (level_rank (level p), updated_at p)"
  have "getNextPhrase d = None \<longleftrightarrow> sort_key ?f ?xs = []"
    by (simp add: getNextPhrase_def split: list.splits)
  also have "\<dots> \<longleftrightarrow> set (sort_key ?f ?xs) = {}" by (simp only: set_empty)
  also have "\<dots> \<longleftrightarrow> (\<forall>p\<in>set (phrases d). completed p)" by (auto simp: filter_empty_conv)
  finally show ?thesis .
qed

lemma getNextPhrase_Some:
  assumes "getNextPhrase d = Some q"
  shows "q \<in> set (phrases d) \<and> \<not> completed q \<and>
         (\<forall>p\<in>set (phrases d). \<not> completed p \<longrightarrow>
            (level_rank (level q), updated_at q) \<le> (level_rank (level p), updated_at p))"
proof -
  let ?xs = "filter (\<lambda>p. \<not> completed p) (phrases d)"
  let ?f = "\<lambda>p. (level_rank (level p), updated_at p)"
  from assms obtain rest where srt: "sort_key ?f ?xs = q # rest"
    by (auto simp: getNextPhrase_def split: list.splits)
  have "set (sort_key ?f ?xs) = set ?xs" by simp
  with srt have mem: "set ?xs = insert q (set rest)" by simp
  then have q: "q \<in> set (phrases d) \<and> \<not> completed q" by auto
  have "sorted (map ?f (sort_key ?f ?xs))" by (rule sorted_sort_key)
  with srt have "\<forall>p\<in>set rest. ?f q \<le> ?f p" by simp
  with mem have "\<forall>p\<in>set ?xs. ?f q \<le> ?f p" by auto
  with q show ?thesis by simp
qed

lemma level_rank_LEVELS:
  "map level_rank LEVELS = [Some 1, Some 2, Some 3, Some 4, Some 5, Some 6]"
  by (simp add: LEVELS_def level_rank_def)

subsection \<open>getStats\<close>

text \<open>Sorting keeps the groups; the groups partition the rows by level.\<close>

lemma stat_level_group_row [simp]: "stat_level (group_row d l) = l"
  by (simp add: group_row_def Let_def)

lemma set_getStats: "set (getStats d) = group_row d ` level ` set (phrases d)"
  by (simp add: getStats_def)

lemma getStats_levels_set: "set (map stat_level (getStats d)) = level ` set (phrases d)"
  by (simp add: set_getStats image_image)

lemma getStats_levels_distinct: "distinct (map stat_level (getStats d))"
proof -
  let ?xs = "map (group_row d) (remdups (map level (phrases d)))"
  have "distinct (map stat_level ?xs)" by (simp add: comp_def)
  then have "distinct ?xs \<and> inj_on stat_level (set ?xs)" by (simp only: distinct_map)
  then have "distinct (sort_key (\<lambda>s. stats_rank (stat_level s)) ?xs) \<and>
             inj_on stat_level (set (sort_key (\<lambda>s. stats_rank (stat_level s)) ?xs))"
    by (simp only: distinct_sort set_sort)
  then show ?thesis unfolding getStats_def by (simp only: distinct_map)
qed

lemma length_filter_split: "length xs = length (filter P xs) + length (filter (\<lambda>x. \<not> P x) xs)"
  by (induction xs) auto

lemma getStats_rows:
  assumes "s \<in> set (getStats d)"
  shows "total s = stat_completed s + remaining s \<and>
         total s = length (filter (\<lambda>p. level p = stat_level s) (phrases d)) \<and>
         stat_completed s = length (filter (\<lambda>p. level p = stat_level s \<and> completed p) (phrases d)) \<and>
         remaining s = length (filter (\<lambda>p. level p = stat_level s \<and> \<not> completed p) (phrases d)) \<and>
         0 < total s"
proof -
  from assms obtain p where p: "p \<in> set (phrases d)" and s: "s = group_row d (level p)"
    by (auto simp: set_getStats)
  have "0 < length (filter (\<lambda>q. level q = level p) (phrases d))"
    using p by (auto simp: filter_empty_conv)
  then show ?thesis unfolding s group_row_def Let_def
    using length_filter_split[of "filter (\<lambda>q. level q = level p) (phrases d)" completed]
    by (simp add: conj_commute)
qed

lemma sum_list_sort_key:
  fixes g :: "'a \<Rightarrow> nat"
  shows "sum_list (map g (sort_key f xs)) = sum_list (map g xs)"
proof (induction xs)
  case Nil
  show ?case by simp
next
  case (Cons x xs)
  have "sum_list (map g (insort_key f x ys)) = g x + sum_list (map g ys)" for ys
    by (induction ys) auto
  with Cons show ?case by simp
qed

lemma count_by_level:
  "sum_list (map (\<lambda>l. length (filter (\<lambda>p. level p = l) ps)) (remdups (map level ps))) = length ps"
proof -
  have "sum_list (map (\<lambda>l. length (filter (\<lambda>p. level p = l) ps)) (remdups (map level ps)))
        = (\<Sum>l\<in>set (map level ps). length (filter (\<lambda>p. level p = l) ps))"
    by (simp add: sum_list_distinct_conv_sum_set)
  also have "\<dots> = (\<Sum>l\<in>set (map level ps). count_list (map level ps) l)"
  proof (rule sum.cong)
    fix l
    show "length (filter (\<lambda>p. level p = l) ps) = count_list (map level ps) l"
      by (induction ps) auto
  qed simp
  also have "\<dots> = length (map level ps)"
    by (rule sum_count_set) simp_all
  finally show ?thesis by simp
qed

lemma getStats_total: "sum_list (map total (getStats d)) = length (phrases d)"
proof -
  have "sum_list (map total (getStats d)) =
        sum_list (map total (map (group_row d) (remdups (map level (phrases d)))))"
    unfolding getStats_def by (rule sum_list_sort_key)
  also have "\<dots> = sum_list (map (\<lambda>l. length (filter (\<lambda>p. level p = l) (phrases d))) (remdups (map level (phrases d))))"
    by (simp add: comp_def group_row_def Let_def)
  also have "\<dots> = length (phrases d)" by (rule count_by_level)
  finally show ?thesis .
qed

lemma getStats_sorted: "sorted (map (\<lambda>s. stats_rank (stat_level s)) (getStats d))"
  unfolding getStats_def by (rule sorted_sort_key)

lemma stats_rank_inj: "inj_on stats_rank (set LEVELS)"
  by (simp add: LEVELS_def stats_rank_def inj_on_def)

lemma stats_rank_LEVELS: "map stats_rank LEVELS = [1, 2, 3, 4, 5, 6]"
  by (simp add: LEVELS_def stats_rank_def)

lemma schema_ok_levels: "schema_ok d \<Longrightarrow> level ` set (phrases d) \<subseteq> set LEVELS"
  by (auto simp: schema_ok_def list_all_iff check_constraints_def LEVELS_def)

lemma getStats_levels:
  assumes "schema_ok d"
  shows "map stat_level (getStats d) = filter (\<lambda>l. l \<in> level ` set (phrases d)) LEVELS"
proof (rule map_sorted_distinct_set_unique[where f = stats_rank])
  let ?xs = "map stat_level (getStats d)"
  let ?ys = "filter (\<lambda>l. l \<in> level ` set (phrases d)) LEVELS"
  have sub: "set ?xs \<subseteq> set LEVELS" using schema_ok_levels[OF assms] getStats_levels_set by simp
  show "set ?xs = set ?ys" using schema_ok_levels[OF assms] getStats_levels_set[of d] by auto
  show "inj_on stats_rank (set ?xs \<union> set ?ys)"
    by (rule inj_on_subset[OF stats_rank_inj]) (use sub in auto)
  show "sorted (map stats_rank ?xs)" using getStats_sorted[of d] by (simp add: comp_def)
  show "distinct (map stats_rank ?xs)"
    using getStats_levels_distinct[of d] sub stats_rank_inj
    by (simp add: distinct_map inj_on_subset comp_def del: map_map)
  have "sorted (map stats_rank LEVELS)" "distinct (map stats_rank LEVELS)"
    by (simp_all add: stats_rank_LEVELS)
  then show "sorted (map stats_rank ?ys)" "distinct (map stats_rank ?ys)"
    by (simp_all add: sorted_filter distinct_map_filter)
qed

subsection \<open>What every call preserves\<close>

text \<open>
  A property of the store that inserts and updates preserve is preserved by every call,
  hence by every run. The schema is such a property.
\<close>

lemma fold_max_le_iff: "fold max xs (a::nat) \<le> b \<longleftrightarrow> a \<le> b \<and> (\<forall>x\<in>set xs. x \<le> b)"
  by (induction xs arbitrary: a) auto

lemma fold_max_ge_iff: "b \<le> fold max xs (a::nat) \<longleftrightarrow> b \<le> a \<or> (\<exists>x\<in>set xs. b \<le> x)"
  by (induction xs arbitrary: a) (auto simp: le_max_iff_disj)

lemma insertTx_preserves:
  assumes ins: "\<And>now a b c d d'. P d \<Longrightarrow> insertPhrase now a b c d = Inr d' \<Longrightarrow> P d'"
  shows "P d \<Longrightarrow> insertTx ks clk ps (d, i, s) = Inr (d', i', s') \<Longrightarrow> P d'"
proof (induction ps arbitrary: d i s)
  case Nil
  then show ?case by simp
next
  case (Cons p ps)
  from Cons.prems(2) obtain key where key: "candidate_key p = Inr key"
    by (cases "candidate_key p") simp_all
  show ?case
  proof (cases "key \<in> set ks")
    case True
    with Cons.prems(2) key have "insertTx ks clk ps (d, i, Suc s) = Inr (d', i', s')" by simp
    from Cons.IH[OF Cons.prems(1) this] show ?thesis .
  next
    case False
    with Cons.prems(2) key obtain d1 where
      i1: "with_fields p (\<lambda>r e l. insertPhrase (clk (seq d)) r e l d) = Inr d1"
      and rest: "insertTx ks clk ps (d1, Suc i, s) = Inr (d', i', s')"
      by (auto split: sum.splits)
    from with_fields_Inr[OF i1] obtain a b c where
      "insertPhrase (clk (seq d)) a b c d = Inr d1" by blast
    from ins[OF Cons.prems(1) this] have "P d1" .
    from Cons.IH[OF this rest] show ?thesis .
  qed
qed

lemma step_preserves:
  assumes ins: "\<And>now a b c d d'. P d \<Longrightarrow> insertPhrase now a b c d = Inr d' \<Longrightarrow> P d'"
    and upd: "\<And>now i flag d. P d \<Longrightarrow> UpdateStatus now i flag = c \<Longrightarrow> P (fst (updateStatus d now i flag))"
    and P: "P d"
  shows "P (step d c)"
proof (cases c)
  case (InsertPhrase now a b c)
  then show ?thesis using ins[OF P] P by (auto split: sum.splits)
next
  case (ImportPhrases clk src)
  show ?thesis
  proof (cases "importPhrases d clk src")
    case (Inl e)
    then show ?thesis using P ImportPhrases by simp
  next
    case (Inr res)
    obtain d' rep where res: "res = (d', rep)" by (cases res)
    from importPhrases_Inr[of d clk src d' rep] Inr res
    consider "d' = d" | ks vs i s where "insertTx ks clk vs (d, 0, 0) = Inr (d', i, s)"
      by auto
    then have "P d'"
    proof cases
      case 1
      then show ?thesis using P by simp
    next
      case 2
      from insertTx_preserves[where P = P, OF ins P this] show ?thesis .
    qed
    then show ?thesis using Inr res ImportPhrases by simp
  qed
next
  case (UpdateStatus now i flag)
  then show ?thesis using upd[OF P] by simp
next
  case GetNextPhrase
  then show ?thesis using P by simp
next
  case GetStats
  then show ?thesis using P by simp
qed

lemma insertPhrase_schema_ok:
  "schema_ok d \<Longrightarrow> insertPhrase now a b c d = Inr d' \<Longrightarrow> schema_ok d'"
  by (auto simp: schema_ok_def dest!: insertPhrase_Inr)

lemma updateStatus_schema_ok:
  "schema_ok d \<Longrightarrow> schema_ok (fst (updateStatus d now i flag))"
  by (auto simp: schema_ok_def updateStatus_phrases list_all_iff)

lemma step_schema_ok: "schema_ok d \<Longrightarrow> schema_ok (step d c)"
  by (rule step_preserves[where P = schema_ok])
     (auto intro: insertPhrase_schema_ok updateStatus_schema_ok)

lemma run_schema_ok: "schema_ok d \<Longrightarrow> schema_ok (run d cs)"
  unfolding run_def by (induction cs arbitrary: d) (auto intro: step_schema_ok)

lemma schema_ok_empty: "schema_ok empty_db"
  by (simp add: schema_ok_def empty_db_def)

lemma sql_length_pos: "0 < sql_length s \<Longrightarrow> s \<noteq> []"
  by (auto simp: sql_length_def)

lemma schema_ok_row:
  "schema_ok d \<Longrightarrow> p \<in> set (phrases d) \<Longrightarrow> ru p \<noteq> [] \<and> en p \<noteq> [] \<and> level p \<in> set LEVELS"
  by (auto simp: schema_ok_def list_all_iff check_constraints_def LEVELS_def dest: sql_length_pos)

lemma insertPhrase_reject:
  "r = [] \<or> e = [] \<or> l \<notin> set LEVELS \<Longrightarrow>
     insertPhrase now (str r) (str e) (str l) d = Inl SqliteError"
  by (auto simp: insertPhrase_def bind_parameters_str check_constraints_def LEVELS_def
        sql_length_def)

subsection \<open>Completed rows stay completed\<close>

text \<open>
  A new row gets a rowid above every rowid handed out so far, and only
  \<open>updateStatus(i, false)\<close> resets the flag of row \<open>i\<close>.
\<close>

lemma insertPhrase_marked_done:
  assumes "marked_done i d" "insertPhrase now a b c d = Inr d'"
  shows "marked_done i d'"
proof -
  from insertPhrase_Inr[OF assms(2)] obtain q where
    ph: "phrases d' = phrases d @ [q]" and q: "phrase_id q = next_rowid d"
    and sq: "seq d' = next_rowid d"
    by auto
  have lt: "i < next_rowid d" using assms(1) by (simp add: marked_done_def next_rowid_def)
  have "i \<le> seq d'" using lt sq by simp
  then have 1: "i \<le> fold max (map phrase_id (phrases d')) (seq d')"
    by (simp only: fold_max_ge_iff) simp
  have 2: "\<forall>p\<in>set (phrases d'). phrase_id p = i \<longrightarrow> completed p"
  proof (intro ballI impI)
    fix p assume p: "p \<in> set (phrases d')" "phrase_id p = i"
    with ph q lt have "p \<in> set (phrases d)" by auto
    with assms(1) p(2) show "completed p" by (simp add: marked_done_def)
  qed
  from 1 2 show ?thesis by (simp only: marked_done_def)
qed

lemma updateStatus_ids:
  "map phrase_id (phrases (fst (updateStatus d now j flag))) = map phrase_id (phrases d)"
  unfolding updateStatus_phrases by (induction "phrases d" arbitrary: d) (simp_all add: comp_def)

lemma updateStatus_row:
  assumes "p \<in> set (phrases (fst (updateStatus d now j flag)))"
  obtains p0 where "p0 \<in> set (phrases d)"
    and "p = (if phrase_id p0 = j then p0\<lparr>completed := flag, updated_at := now\<rparr> else p0)"
proof -
  from assms
  have "p \<in> (\<lambda>p. if phrase_id p = j then p\<lparr>completed := flag, updated_at := now\<rparr> else p)
               ` set (phrases d)"
    by (simp only: updateStatus_phrases set_map)
  then show thesis using that by (rule imageE)
qed

lemma updateStatus_completed:
  assumes "p \<in> set (phrases (fst (updateStatus d now j flag)))" "phrase_id p = i"
    and "j \<noteq> i \<or> flag"
    and "j \<noteq> i \<longrightarrow> (\<forall>p0\<in>set (phrases d). phrase_id p0 = i \<longrightarrow> completed p0)"
  shows "completed p"
proof -
  from assms(1) obtain p0 where p0: "p0 \<in> set (phrases d)"
    and pp: "p = (if phrase_id p0 = j then p0\<lparr>completed := flag, updated_at := now\<rparr> else p0)"
    by (rule updateStatus_row)
  show ?thesis
  proof (cases "phrase_id p0 = j")
    case True
    with pp assms(2) have "j = i" by simp
    with assms(3) have flag by simp
    with True pp show ?thesis by simp
  next
    case False
    with pp have eq: "p = p0" by simp
    with False assms(2) have "j \<noteq> i" by auto
    with assms(4) p0 eq assms(2) show ?thesis by simp
  qed
qed

lemma updateStatus_marked_done:
  assumes "marked_done i d" "j \<noteq> i \<or> flag"
  shows "marked_done i (fst (updateStatus d now j flag))"
proof -
  have 1: "i \<le> fold max (map phrase_id (phrases (fst (updateStatus d now j flag))))
                  (seq (fst (updateStatus d now j flag)))"
    using assms(1) by (simp only: updateStatus_ids updateStatus_seq marked_done_def)
  have 2: "\<forall>p\<in>set (phrases (fst (updateStatus d now j flag))). phrase_id p = i \<longrightarrow> completed p"
    using updateStatus_completed[where d = d and now = now and j = j and flag = flag and i = i]
      assms by (simp add: marked_done_def)
  from 1 2 show ?thesis by (simp only: marked_done_def)
qed

lemma step_marked_done:
  assumes "marked_done i d" "\<forall>now. c \<noteq> UpdateStatus now i False"
  shows "marked_done i (step d c)"
proof (rule step_preserves[where P = "marked_done i"])
  show "marked_done i d" by (rule assms(1))
next
  fix now a b c d d'
  assume "marked_done i d" "insertPhrase now a b c d = Inr d'"
  then show "marked_done i d'" by (rule insertPhrase_marked_done)
next
  fix now j flag d
  assume m: "marked_done i d" and c: "UpdateStatus now j flag = c"
  with assms(2) have "j \<noteq> i \<or> flag" by auto
  with m show "marked_done i (fst (updateStatus d now j flag))" by (rule updateStatus_marked_done)
qed

lemma run_marked_done:
  "marked_done i d \<Longrightarrow> \<forall>now. UpdateStatus now i False \<notin> set cs \<Longrightarrow> marked_done i (run d cs)"
  unfolding run_def
proof (induction cs arbitrary: d)
  case Nil
  then show ?case by simp
next
  case (Cons c cs)
  from Cons.prems have "marked_done i (step d c)" by (intro step_marked_done) auto
  moreover from Cons.prems have "\<forall>now. UpdateStatus now i False \<notin> set cs" by simp
  ultimately show ?case using Cons.IH by simp
qed

subsection \<open>Batches of text\<close>

text \<open>
  For a batch of objects whose texts are strings without unpaired surrogates the key of
  a candidate is the key of the row inserted from it. On such a batch a run that ends
  with its counts is followed by a run that skips every valid candidate. The filter
  keeps the objects on which the callback holds; for strings the callback asks that
  \<open>ru\<close> and \<open>en\<close> are non-empty and the level is one of the six.
\<close>

lemma js_utf8: "list_all is_byte s \<Longrightarrow> js (utf8 s) = s"
proof (induction s)
  case Nil
  show ?case by (simp add: js_def)
next
  case (Cons c s)
  then show ?case by (cases c) (simp_all add: js_def)
qed

lemma includes_str_LEVELS:
  "includes_str LEVELS v \<Longrightarrow> \<exists>l\<in>set LEVELS. v = str l"
  by (cases v) (auto simp: str_def)

lemma plain_valid_fields:
  assumes "plain_candidate p" "valid p = Inr True"
  obtains r e l where "js_get p ''ru'' = Inr (JStr r)" "js_get p ''en'' = Inr (JStr e)"
    "js_get p ''level'' = Inr (str l)" "list_all is_byte r" "list_all is_byte e"
    "l \<in> set LEVELS"
proof -
  from assms(2) obtain a b c where
    g: "js_get p ''ru'' = Inr a" "js_get p ''en'' = Inr b" "js_get p ''level'' = Inr c"
    and t: "truthy a" "truthy b" "includes_str LEVELS c"
    by (auto simp: valid_def with_fields_def split: sum.splits)
  from assms(1) g have tf: "text_field a" "text_field b"
    by (simp_all add: plain_candidate_def)
  from tf(1) t(1) obtain r where a: "a = JStr r" "list_all is_byte r" by (cases a) auto
  from tf(2) t(2) obtain e where b: "b = JStr e" "list_all is_byte e" by (cases b) auto
  from includes_str_LEVELS[OF t(3)] obtain l where c: "c = str l" "l \<in> set LEVELS" by blast
  from g a b c show thesis using that by simp
qed

lemma plain_valid_key:
  assumes "plain_candidate p" "valid p = Inr True"
  shows "\<exists>r e l. candidate_key p = Inr (phrase_key r e (js l)) \<and>
           list_all is_byte r \<and> list_all is_byte e \<and>
           (\<forall>now d. with_fields p (\<lambda>a b c. insertPhrase now a b c d)
              = insertPhrase now (JStr r) (JStr e) (str l) d)"
proof -
  from assms obtain r e l where
    g: "js_get p ''ru'' = Inr (JStr r)" "js_get p ''en'' = Inr (JStr e)"
      "js_get p ''level'' = Inr (str l)" and b: "list_all is_byte r" "list_all is_byte e"
    by (rule plain_valid_fields)
  have k: "candidate_key p = Inr (phrase_key r e (js l))"
    using g by (simp add: candidate_key_def with_fields_def str_def)
  have w: "\<forall>now d. with_fields p (\<lambda>a b c. insertPhrase now a b c d)
        = insertPhrase now (JStr r) (JStr e) (str l) d"
    using g by (simp add: with_fields_def)
  from k b w show ?thesis by blast
qed

lemma insertPhrase_text_Inr:
  assumes "insertPhrase now (JStr r) (JStr e) (str l) d = Inr d'"
  shows "phrases d' = phrases d @
           [\<lparr>phrase_id = next_rowid d, ru = utf8 r, en = utf8 e, level = l,
             completed = False, created_at = now, updated_at = now\<rparr>]"
  using assms
  by (auto simp: insertPhrase_def bind_parameters_def str_def utf8_js split: if_splits)

lemma existing_keys_append:
  "phrases d' = phrases d @ new \<Longrightarrow>
     existing_keys d' =
       existing_keys d @ map (\<lambda>p. phrase_key (js (ru p)) (js (en p)) (js (level p))) new"
  by (simp add: existing_keys_def getAllPhrases_def)

lemma insertTx_all_skipped:
  "\<forall>p\<in>set ps. \<exists>k\<in>set ks. candidate_key p = Inr k \<Longrightarrow>
     insertTx ks clk ps (d, i, s) = Inr (d, i, s + length ps)"
  by (induction ps arbitrary: s) auto

lemma insertTx_text_keys:
  assumes "\<forall>p\<in>set ps. plain_candidate p \<and> valid p = Inr True"
    and "insertTx ks clk ps (d, i, s) = Inr (d', i', s')"
  shows "(\<exists>new. phrases d' = phrases d @ new) \<and> i' + s' = i + s + length ps \<and>
         (\<forall>p\<in>set ps. \<exists>k\<in>set ks \<union> set (existing_keys d'). candidate_key p = Inr k)"
  using assms
proof (induction ps arbitrary: d i s)
  case Nil
  then show ?case by simp
next
  case (Cons p ps)
  from Cons.prems(1) have pl: "plain_candidate p" "valid p = Inr True" by simp_all
  from plain_valid_key[OF pl] obtain r e l where
    k: "candidate_key p = Inr (phrase_key r e (js l))"
    and b: "list_all is_byte r" "list_all is_byte e"
    and w: "\<forall>now d. with_fields p (\<lambda>a b c. insertPhrase now a b c d)
        = insertPhrase now (JStr r) (JStr e) (str l) d"
    by blast
  from Cons.prems(1) have rest_ok: "\<forall>p\<in>set ps. plain_candidate p \<and> valid p = Inr True" by simp
  show ?case
  proof (cases "phrase_key r e (js l) \<in> set ks")
    case True
    with Cons.prems(2) k have "insertTx ks clk ps (d, i, Suc s) = Inr (d', i', s')" by simp
    from Cons.IH[OF rest_ok this] True k show ?thesis by auto
  next
    case False
    with Cons.prems(2) k w obtain d1 where
      ins: "insertPhrase (clk (seq d)) (JStr r) (JStr e) (str l) d = Inr d1"
      and rest: "insertTx ks clk ps (d1, Suc i, s) = Inr (d', i', s')"
      by (auto split: sum.splits)
    let ?q = "\<lparr>phrase_id = next_rowid d, ru = utf8 r, en = utf8 e, level = l,
             completed = False, created_at = clk (seq d), updated_at = clk (seq d)\<rparr>"
    from insertPhrase_text_Inr[OF ins] have d1: "phrases d1 = phrases d @ [?q]" .
    from Cons.IH[OF rest_ok rest] obtain new where
      new: "phrases d' = phrases d1 @ new"
      and cnt: "i' + s' = Suc i + s + length ps"
      and keys: "\<forall>p\<in>set ps. \<exists>k\<in>set ks \<union> set (existing_keys d'). candidate_key p = Inr k"
      by blast
    have a: "phrases d' = phrases d @ (?q # new)" using new d1 by simp
    have "existing_keys d' = existing_keys d @
            map (\<lambda>p. phrase_key (js (ru p)) (js (en p)) (js (level p))) (?q # new)"
      using a by (rule existing_keys_append)
    then have "phrase_key (js (utf8 r)) (js (utf8 e)) (js l) \<in> set (existing_keys d')" by simp
    then have kin: "phrase_key r e (js l) \<in> set (existing_keys d')"
      using b by (simp add: js_utf8)
    have "\<exists>new. phrases d' = phrases d @ new" using a by blast
    moreover have "i' + s' = i + s + length (p # ps)" using cnt by simp
    moreover have "\<forall>p'\<in>set (p # ps). \<exists>k\<in>set ks \<union> set (existing_keys d'). candidate_key p' = Inr k"
      using keys k kin by auto
    ultimately show ?thesis by blast
  qed
qed

lemma filter_valid_Inr:
  "filter_valid ps = Inr vs \<Longrightarrow> set vs \<subseteq> set ps \<and> (\<forall>p\<in>set vs. valid p = Inr True)"
proof (induction ps arbitrary: vs)
  case Nil
  then show ?case by simp
next
  case (Cons p ps)
  from Cons.prems obtain keep vs' where
    v: "valid p = Inr keep" and f: "filter_valid ps = Inr vs'"
    and vs: "vs = (if keep then p # vs' else vs')"
    by (auto split: sum.splits)
  from Cons.IH[OF f] v vs show ?case by auto
qed

lemma import_idempotent_on_text:
  assumes plain: "\<forall>p\<in>set ps. plain_candidate p"
    and first: "importPhrases d clk (JArr ps) = Inr (d1, Some (inserted, skipped))"
  shows "\<exists>vs. filter_valid ps = Inr vs \<and> inserted + skipped = length vs \<and>
           importPhrases d1 clk' (JArr ps) = Inr (d1, Some (0, length vs))"
proof -
  from first obtain vs where fv: "filter_valid ps = Inr vs" and ne: "vs \<noteq> []"
    and tx: "insertTx (existing_keys d) clk vs (d, 0, 0) = Inr (d1, inserted, skipped)"
    by (auto simp: importPhrases_def split: sum.splits if_splits)
  from filter_valid_Inr[OF fv] plain
  have ok: "\<forall>p\<in>set vs. plain_candidate p \<and> valid p = Inr True" by auto
  from insertTx_text_keys[OF ok tx] obtain new where
    new: "phrases d1 = phrases d @ new" and cnt: "inserted + skipped = length vs"
    and keys: "\<forall>p\<in>set vs. \<exists>k\<in>set (existing_keys d) \<union> set (existing_keys d1).
                 candidate_key p = Inr k"
    by auto
  have "set (existing_keys d) \<subseteq> set (existing_keys d1)"
    using existing_keys_append[OF new] by simp
  with keys have "\<forall>p\<in>set vs. \<exists>k\<in>set (existing_keys d1). candidate_key p = Inr k" by blast
  then have "insertTx (existing_keys d1) clk' vs (d1, 0, 0) = Inr (d1, 0, 0 + length vs)"
    by (rule insertTx_all_skipped)
  with fv ne have "importPhrases d1 clk' (JArr ps) = Inr (d1, Some (0, length vs))"
    by (simp add: importPhrases_def)
  with fv cnt show ?thesis by blast
qed

lemma valid_candidate_text:
  "valid (candidate (JStr r) (JStr e) (JStr l)) =
     Inr (r \<noteq> [] \<and> e \<noteq> [] \<and> l \<in> js ` set LEVELS)"
  by (simp add: valid_def with_fields_def candidate_def)

lemma filter_valid_objects:
  "\<forall>p\<in>set ps. is_object p \<Longrightarrow>
     filter_valid ps = Inr (filter (\<lambda>p. valid p = Inr True) ps)"
proof (induction ps)
  case Nil
  show ?case by simp
next
  case (Cons p ps)
  from Cons.prems obtain kvs where "p = JObj kvs" by (cases p) auto
  then obtain keep where "valid p = Inr keep"
    by (auto simp: valid_def with_fields_def)
  with Cons show ?case by auto
qed

section \<open>The claims\<close>

subsection \<open>Import\<close>

text \<open>
  Claim C1. Two structurally identical valid candidates in one batch give exactly one
  inserted record, the second being counted as skipped; the batch
  \<open>[{ru: privet, en: Hello, level: A1}, {ru: privet, en: Hello, level: A1}, {ru: X, en: Y, level: Z9}]\<close>
  imported into an empty store reports inserted=1, skipped=1.

  The loop of \<open>insertTx\<close> only reads \<open>existingSet\<close>: the key of a row it has just
  inserted is never added. On the batch of the claim the code therefore inserts both
  copies and reports inserted=2, skipped=0, which is what the theorem computes.
\<close>

theorem import_batch_duplicate_inserted_twice:
  "importPhrases empty_db id
     (JArr [candidate (str privet) (str ''Hello'') (str ''A1''),
            candidate (str privet) (str ''Hello'') (str ''A1''),
            candidate (str ''X'') (str ''Y'') (str ''Z9'')])
   = Inr (\<lparr>phrases =
            [\<lparr>phrase_id = 1, ru = privet, en = ''Hello'', level = ''A1'', completed = False,
               created_at = 0, updated_at = 0\<rparr>,
             \<lparr>phrase_id = 2, ru = privet, en = ''Hello'', level = ''A1'', completed = False,
               created_at = 1, updated_at = 1\<rparr>],
           seq = 2\<rparr>, Some (2, 0))"
  by code_simp

text \<open>
  Claim C2. The duplicate check of the import treats an existing record and a valid
  candidate as duplicates if and only if their triples (ru, en, level) are equal
  component by component; two distinct triples never share a key.

  The key is the three texts joined by \<open>|\<close>, so a text that contains \<open>|\<close> can
  move the boundary: the stored record \<open>(a|b, c, A1)\<close> and the candidate
  \<open>(a, b|c, A1)\<close> are different triples with the same key, and the import skips the
  candidate as a duplicate.
\<close>

theorem key_collision_skips_distinct_phrase:
  "(''a|b'', ''c'', ''A1'') \<noteq> (''a'', ''b|c'', ''A1'') \<and>
   phrase_key (js ''a|b'') (js ''c'') (js ''A1'') = phrase_key (js ''a'') (js ''b|c'') (js ''A1'') \<and>
   importPhrases
     \<lparr>phrases = [\<lparr>phrase_id = 1, ru = ''a|b'', en = ''c'', level = ''A1'', completed = False,
                   created_at = 0, updated_at = 0\<rparr>], seq = 1\<rparr>
     id (JArr [candidate (str ''a'') (str ''b|c'') (str ''A1'')])
   = Inr (\<lparr>phrases = [\<lparr>phrase_id = 1, ru = ''a|b'', en = ''c'', level = ''A1'',
                        completed = False, created_at = 0, updated_at = 0\<rparr>], seq = 1\<rparr>,
          Some (0, 1))"
  by code_simp

text \<open>
  Claim C3. The import is idempotent: running \<open>importPhrases\<close> twice on a source
  leaves the store as running it once does, and the second run reports inserted=0 and
  skipped=N, where N is the number of valid candidates of the first run.

  The key of a stored row is built from what the table gives back, the key of a
  candidate from the value in the file, and the filter lets every truthy value pass.
  The file \<open>[{ru: 1, en: x, level: A1}]\<close> has one valid candidate. Its number is stored
  as the text \<open>1.0\<close>, so the row has the key \<open>1.0|x|A1\<close> and the candidate the key
  \<open>1|x|A1\<close>: the second run on the same file inserts the candidate again and reports
  inserted=1, skipped=0.
\<close>

theorem import_number_inserted_again:
  "importPhrases empty_db id (JArr [candidate (JNum 1) (str ''x'') (str ''A1'')])
   = Inr (\<lparr>phrases =
            [\<lparr>phrase_id = 1, ru = ''1.0'', en = ''x'', level = ''A1'', completed = False,
               created_at = 0, updated_at = 0\<rparr>],
           seq = 1\<rparr>, Some (1, 0)) \<and>
   importPhrases
     \<lparr>phrases =
        [\<lparr>phrase_id = 1, ru = ''1.0'', en = ''x'', level = ''A1'', completed = False,
           created_at = 0, updated_at = 0\<rparr>],
      seq = 1\<rparr>
     id (JArr [candidate (JNum 1) (str ''x'') (str ''A1'')])
   = Inr (\<lparr>phrases =
            [\<lparr>phrase_id = 1, ru = ''1.0'', en = ''x'', level = ''A1'', completed = False,
               created_at = 0, updated_at = 0\<rparr>,
             \<lparr>phrase_id = 2, ru = ''1.0'', en = ''x'', level = ''A1'', completed = False,
               created_at = 1, updated_at = 1\<rparr>],
           seq = 2\<rparr>, Some (1, 0))"
  by code_simp

text \<open>
  Claim C9. During an import a candidate is valid if and only if its source text is
  non-empty, its target text is non-empty and its level is one of A1, A2, B1, B2, C1, C2;
  an invalid candidate is dropped without an error, is never inserted, and does not
  change the inserted and skipped counts of the others.

  The callback of the filter reads \<open>p.ru\<close> without looking at \<open>p\<close> and tests the
  fields for truthiness only. An element \<open>null\<close> makes it throw, so the import of
  \<open>[hello, null]\<close> ends in a \<open>TypeError\<close> and stores nothing, where \<open>[hello]\<close> alone
  inserts one record. A candidate whose \<open>ru\<close> is \<open>true\<close> has no source text and yet
  passes the filter; the insert then refuses the boolean, and the transaction takes
  the record of \<open>hello\<close> back with it.
\<close>

theorem import_invalid_element_not_dropped:
  "importPhrases empty_db id
     (JArr [candidate (str privet) (str ''Hello'') (str ''A1''), JNull])
   = Inl TypeError \<and>
   importPhrases empty_db id (JArr [candidate (str privet) (str ''Hello'') (str ''A1'')])
   = Inr (\<lparr>phrases =
            [\<lparr>phrase_id = 1, ru = privet, en = ''Hello'', level = ''A1'', completed = False,
               created_at = 0, updated_at = 0\<rparr>],
           seq = 1\<rparr>, Some (1, 0)) \<and>
   valid (candidate (JBool True) (str ''Y'') (str ''A1'')) = Inr True \<and>
   importPhrases empty_db id
     (JArr [candidate (str privet) (str ''Hello'') (str ''A1''),
            candidate (JBool True) (str ''Y'') (str ''A1'')])
   = Inl BindError"
  by code_simp

subsection \<open>The schema\<close>

text \<open>
  Claim C10. The schema enforces the invariants of a record by itself: every stored
  record has a non-empty ru, a non-empty en and a level among A1, A2, B1, B2, C1, C2, and
  a direct \<open>insertPhrase\<close> with an empty text or a level outside the enumeration throws
  and leaves the store unchanged.

  Stored records are those of a store reached from the empty one by any calls.
\<close>

theorem schema_enforced:
  "(\<forall>p\<in>set (phrases (run empty_db cs)). ru p \<noteq> [] \<and> en p \<noteq> [] \<and> level p \<in> set LEVELS) \<and>
   (r = [] \<or> e = [] \<or> l \<notin> set LEVELS \<longrightarrow>
      insertPhrase now (str r) (str e) (str l) d = Inl SqliteError \<and>
      step d (InsertPhrase now (str r) (str e) (str l)) = d)"
  using schema_ok_row[OF run_schema_ok[OF schema_ok_empty]] insertPhrase_reject[of r e l now d]
  by auto

theorem schema_enforced_witness:
  "hello_row 2 1 \<in> set (phrases (run empty_db [ImportPhrases id (JArr sample_batch)])) \<and>
   ru (hello_row 2 1) \<noteq> [] \<and> en (hello_row 2 1) \<noteq> [] \<and> level (hello_row 2 1) \<in> set LEVELS \<and>
   ''Z9'' \<notin> set LEVELS \<and>
   insertPhrase 7 (str ''X'') (str ''Y'') (str ''Z9'') sample_db = Inl SqliteError \<and>
   step sample_db (InsertPhrase 7 (str ''X'') (str ''Y'') (str ''Z9'')) = sample_db \<and>
   insertPhrase 7 (str []) (str ''Y'') (str ''A1'') sample_db = Inl SqliteError"
proof -
  have m: "hello_row 2 1 \<in> set (phrases (run empty_db [ImportPhrases id (JArr sample_batch)]))"
    by code_simp
  have z: "''Z9'' \<notin> set LEVELS" by code_simp
  from schema_enforced[of "[ImportPhrases id (JArr sample_batch)]" "''X''" "''Y''" "''Z9''" 7 sample_db]
    schema_enforced[of "[]" "[]" "''Y''" "''A1''" 7 sample_db] m z
  show ?thesis by blast
qed

subsection \<open>Queries and updates\<close>

text \<open>
  Claim C4. \<open>getNextPhrase\<close> returns the incomplete record of highest priority, or
  none when every record is complete: a record is never returned while an incomplete
  record of a strictly lower level is there, and among records of one level the one with
  the earliest \<open>updated_at\<close> comes first. The rank of a level is its position in
  A1, A2, B1, B2, C1, C2.
\<close>

theorem getNextPhrase_priority:
  "(getNextPhrase d = None \<longleftrightarrow> (\<forall>p\<in>set (phrases d). completed p)) \<and>
   (getNextPhrase d = Some q \<longrightarrow>
      q \<in> set (phrases d) \<and> \<not> completed q \<and>
      (\<forall>p\<in>set (phrases d). \<not> completed p \<longrightarrow>
         \<not> level_rank (level p) < level_rank (level q) \<and>
         (level p = level q \<longrightarrow> updated_at q \<le> updated_at p))) \<and>
   map level_rank LEVELS = [Some 1, Some 2, Some 3, Some 4, Some 5, Some 6]"
proof (intro conjI impI)
  show "getNextPhrase d = None \<longleftrightarrow> (\<forall>p\<in>set (phrases d). completed p)"
    by (rule getNextPhrase_None)
next
  assume "getNextPhrase d = Some q"
  from getNextPhrase_Some[OF this]
  show "q \<in> set (phrases d)" "\<not> completed q" by simp_all
next
  assume "getNextPhrase d = Some q"
  from getNextPhrase_Some[OF this]
  have le: "\<forall>p\<in>set (phrases d). \<not> completed p \<longrightarrow>
            (level_rank (level q), updated_at q) \<le> (level_rank (level p), updated_at p)" by simp
  show "\<forall>p\<in>set (phrases d). \<not> completed p \<longrightarrow>
         \<not> level_rank (level p) < level_rank (level q) \<and>
         (level p = level q \<longrightarrow> updated_at q \<le> updated_at p)"
  proof (intro ballI impI)
    fix p assume "p \<in> set (phrases d)" "\<not> completed p"
    with le have "(level_rank (level q), updated_at q) \<le> (level_rank (level p), updated_at p)"
      by simp
    then show "\<not> level_rank (level p) < level_rank (level q) \<and>
         (level p = level q \<longrightarrow> updated_at q \<le> updated_at p)"
      by (auto simp: less_eq_prod_simp)
  qed
next
  show "map level_rank LEVELS = [Some 1, Some 2, Some 3, Some 4, Some 5, Some 6]"
    by (rule level_rank_LEVELS)
qed

theorem getNextPhrase_priority_witness:
  "getNextPhrase mixed_db = Some (row 3 ''A2'' False 4) \<and>
   \<not> level_rank ''B1'' < level_rank ''A2'' \<and>
   updated_at (row 3 ''A2'' False 4) \<le> updated_at (row 2 ''A2'' False 9) \<and>
   getNextPhrase done_db = None"
proof -
  have h: "getNextPhrase mixed_db = Some (row 3 ''A2'' False 4)" by code_simp
  have m1: "row 1 ''B1'' False 5 \<in> set (phrases mixed_db)" "\<not> completed (row 1 ''B1'' False 5)"
    "level (row 1 ''B1'' False 5) = ''B1''"
    by code_simp+
  have m2: "row 2 ''A2'' False 9 \<in> set (phrases mixed_db)" "\<not> completed (row 2 ''A2'' False 9)"
    "level (row 2 ''A2'' False 9) = level (row 3 ''A2'' False 4)"
    "level (row 3 ''A2'' False 4) = ''A2''"
    by code_simp+
  have dn: "\<forall>p\<in>set (phrases done_db). completed p" by code_simp
  from getNextPhrase_priority[of mixed_db "row 3 ''A2'' False 4"] h
  have all: "\<forall>p\<in>set (phrases mixed_db). \<not> completed p \<longrightarrow>
         \<not> level_rank (level p) < level_rank (level (row 3 ''A2'' False 4)) \<and>
         (level p = level (row 3 ''A2'' False 4) \<longrightarrow>
            updated_at (row 3 ''A2'' False 4) \<le> updated_at p)"
    by blast
  from all m1 m2 have a: "\<not> level_rank ''B1'' < level_rank ''A2''"
    by (metis)
  from all m2 have b: "updated_at (row 3 ''A2'' False 4) \<le> updated_at (row 2 ''A2'' False 9)"
    by blast
  from getNextPhrase_priority[of done_db "row 3 ''A2'' False 4"] dn
  have c: "getNextPhrase done_db = None" by blast
  from h a b c show ?thesis by simp
qed

text \<open>
  Claim C6, as written: for every id, after \<open>updateStatus(id, true)\<close> no later
  \<open>getNextPhrase\<close> returns the record with that id, unless \<open>updateStatus(id, false)\<close>
  is called in between.

  This fails for an id that no record has yet: the call changes nothing, and a later
  import can hand out this very id to a new, incomplete record. On an empty store,
  \<open>updateStatus(1, true)\<close> followed by the import of one phrase makes
  \<open>getNextPhrase\<close> return the record with id 1.
\<close>

theorem completion_unknown_id_counterexample:
  "map_option phrase_id
     (getNextPhrase (run (fst (updateStatus empty_db 0 1 True))
        [ImportPhrases id (JArr [candidate (str ''a'') (str ''b'') (str ''A1'')])]))
   = Some 1"
  by code_simp

text \<open>
  Claim C6, amended: for every id of a record that is in the store when
  \<open>updateStatus(id, true)\<close> is called, no later \<open>getNextPhrase\<close> returns the record
  with that id, whatever calls are made in between, unless \<open>updateStatus(id, false)\<close>
  is among them.
\<close>

theorem completion_monotone:
  assumes "i \<in> phrase_id ` set (phrases d)"
    and "\<forall>t. UpdateStatus t i False \<notin> set cs"
    and "getNextPhrase (run (fst (updateStatus d now i True)) cs) = Some q"
  shows "phrase_id q \<noteq> i"
proof -
  have "i \<le> fold max (map phrase_id (phrases d)) (seq d)"
    using assms(1) by (simp only: fold_max_ge_iff) auto
  then have 1: "i \<le> fold max (map phrase_id (phrases (fst (updateStatus d now i True))))
                  (seq (fst (updateStatus d now i True)))"
    by (simp only: updateStatus_ids updateStatus_seq)
  have 2: "\<forall>p\<in>set (phrases (fst (updateStatus d now i True))). phrase_id p = i \<longrightarrow> completed p"
    using updateStatus_completed[where d = d and now = now and j = i and flag = True and i = i]
    by simp
  from 1 2 have "marked_done i (fst (updateStatus d now i True))"
    by (simp only: marked_done_def)
  from run_marked_done[OF this assms(2)]
  have "\<forall>p\<in>set (phrases (run (fst (updateStatus d now i True)) cs)). phrase_id p = i \<longrightarrow> completed p"
    by (simp add: marked_done_def)
  with getNextPhrase_Some[OF assms(3)] show ?thesis by auto
qed

theorem completion_monotone_witness:
  "1 \<in> phrase_id ` set (phrases sample_db) \<and>
   getNextPhrase (run (fst (updateStatus sample_db 5 1 True))
      [ImportPhrases id (JArr [z9]), UpdateStatus 6 2 False, GetNextPhrase, UpdateStatus 7 1 True])
     = Some ((hello_row 2 1)\<lparr>updated_at := 6\<rparr>) \<and>
   phrase_id ((hello_row 2 1)\<lparr>updated_at := 6\<rparr>) \<noteq> 1"
proof -
  let ?cs = "[ImportPhrases id (JArr [z9]), UpdateStatus 6 2 False, GetNextPhrase,
              UpdateStatus 7 1 True]"
  have a: "1 \<in> phrase_id ` set (phrases sample_db)" by code_simp
  have b: "\<forall>t. UpdateStatus t 1 False \<notin> set ?cs" by simp
  have c: "getNextPhrase (run (fst (updateStatus sample_db 5 1 True)) ?cs) = Some ((hello_row 2 1)\<lparr>updated_at := 6\<rparr>)"
    by code_simp
  from completion_monotone[OF a b c] a c show ?thesis by simp
qed

text \<open>
  Claim C7. \<open>getStats\<close> returns one row \<open>{level, total, completed, remaining}\<close> for
  each level that has a record, in the order of the level ranks, and none for a level
  without records; in every row total = completed + remaining, and the totals of all
  rows add up to the number of records in the store.

  The levels of the rows are exactly those of A1, A2, B1, B2, C1, C2 that occur in the
  store, in that order, when the rows of the store satisfy the schema.
\<close>

theorem getStats_consistent:
  "distinct (map stat_level (getStats d)) \<and>
   set (map stat_level (getStats d)) = level ` set (phrases d) \<and>
   sorted (map (\<lambda>s. stats_rank (stat_level s)) (getStats d)) \<and>
   (schema_ok d \<longrightarrow>
      map stat_level (getStats d) = filter (\<lambda>l. l \<in> level ` set (phrases d)) LEVELS) \<and>
   (\<forall>s\<in>set (getStats d).
      total s = stat_completed s + remaining s \<and>
      total s = length (filter (\<lambda>p. level p = stat_level s) (phrases d)) \<and>
      stat_completed s = length (filter (\<lambda>p. level p = stat_level s \<and> completed p) (phrases d)) \<and>
      remaining s = length (filter (\<lambda>p. level p = stat_level s \<and> \<not> completed p) (phrases d)) \<and>
      0 < total s) \<and>
   sum_list (map total (getStats d)) = length (phrases d)"
  using getStats_levels_distinct[of d] getStats_levels_set[of d] getStats_sorted[of d]
    getStats_levels[of d] getStats_rows[of _ d] getStats_total[of d]
  by blast

theorem getStats_consistent_witness:
  "schema_ok mixed_db \<and>
   getStats mixed_db = [Stat ''A1'' 1 1 0, Stat ''A2'' 2 0 2, Stat ''B1'' 1 0 1] \<and>
   map stat_level (getStats mixed_db) = [''A1'', ''A2'', ''B1''] \<and>
   total (Stat ''A2'' 2 0 2) = stat_completed (Stat ''A2'' 2 0 2) + remaining (Stat ''A2'' 2 0 2) \<and>
   sum_list (map total (getStats mixed_db)) = 4"
proof -
  have ok: "schema_ok mixed_db" by code_simp
  have g: "getStats mixed_db = [Stat ''A1'' 1 1 0, Stat ''A2'' 2 0 2, Stat ''B1'' 1 0 1]"
    by code_simp
  have f: "filter (\<lambda>l. l \<in> level ` set (phrases mixed_db)) LEVELS = [''A1'', ''A2'', ''B1'']"
    by code_simp
  have n: "length (phrases mixed_db) = 4" by code_simp
  have m: "Stat ''A2'' 2 0 2 \<in> set (getStats mixed_db)" using g by simp
  note t = getStats_consistent[of mixed_db]
  from t ok f have 1: "map stat_level (getStats mixed_db) = [''A1'', ''A2'', ''B1'']" by simp
  from t m have 2: "total (Stat ''A2'' 2 0 2) =
      stat_completed (Stat ''A2'' 2 0 2) + remaining (Stat ''A2'' 2 0 2)" by blast
  from t n have 3: "sum_list (map total (getStats mixed_db)) = 4" by simp
  from ok g 1 2 3 show ?thesis by simp
qed

text \<open>
  Claim C8. For every id and flag, \<open>updateStatus(id, flag)\<close> sets the completed flag
  and refreshes \<open>updated_at\<close> of the record with that id and returns the number of
  rows affected; when no record has that id it returns 0 affected rows without an
  error and the store stays as it was.

  The call has no failing outcome: it always returns the store, the id it was given and
  the count, which is 1 for the id of a record when rowids are a key.
\<close>

theorem updateStatus_reports_changes:
  "updateStatus d now i flag =
     (d\<lparr>phrases := map (\<lambda>p. if phrase_id p = i then p\<lparr>completed := flag, updated_at := now\<rparr>
                            else p) (phrases d)\<rparr>,
      i, length (filter (\<lambda>p. phrase_id p = i) (phrases d))) \<and>
   (i \<notin> phrase_id ` set (phrases d) \<longrightarrow> updateStatus d now i flag = (d, i, 0)) \<and>
   (ids_ok d \<and> i \<in> phrase_id ` set (phrases d) \<longrightarrow> snd (snd (updateStatus d now i flag)) = 1)"
proof (intro conjI impI)
  let ?upd = "map (\<lambda>p. if phrase_id p = i then p\<lparr>completed := flag, updated_at := now\<rparr> else p)
                (phrases d)"
  have fired: "fold (\<lambda>p. update_timestamp now (phrase_id p))
                 (filter (\<lambda>p. phrase_id p = i) (phrases d)) ?upd = ?upd"
    by (rule fold_update_timestamp) auto
  then show eq: "updateStatus d now i flag =
      (d\<lparr>phrases := ?upd\<rparr>, i, length (filter (\<lambda>p. phrase_id p = i) (phrases d)))"
    by (simp add: updateStatus_def Let_def)
  {
    assume absent: "i \<notin> phrase_id ` set (phrases d)"
    then have "?upd = phrases d" by (rule map_id_if_absent)
    moreover from absent have "filter (\<lambda>p. phrase_id p = i) (phrases d) = []"
      by (auto simp: filter_empty_conv)
    ultimately show "updateStatus d now i flag = (d, i, 0)" using eq by simp
  }
  {
    assume "ids_ok d \<and> i \<in> phrase_id ` set (phrases d)"
    then have "length (filter (\<lambda>p. phrase_id p = i) (phrases d)) = 1"
      by (simp add: ids_ok_def distinct_count_le1)
    then show "snd (snd (updateStatus d now i flag)) = 1"
      by (simp add: updateStatus_changes)
  }
qed

theorem updateStatus_reports_changes_witness:
  "9 \<notin> phrase_id ` set (phrases mixed_db) \<and>
   updateStatus mixed_db 20 9 True = (mixed_db, 9, 0) \<and>
   ids_ok mixed_db \<and> 2 \<in> phrase_id ` set (phrases mixed_db) \<and>
   updateStatus mixed_db 20 2 True =
     (\<lparr>phrases = [row 1 ''B1'' False 5, row 2 ''A2'' True 20, row 3 ''A2'' False 4,
                  row 4 ''A1'' True 1], seq = 4\<rparr>, 2, 1)"
proof -
  have a: "9 \<notin> phrase_id ` set (phrases mixed_db)" by code_simp
  have b: "ids_ok mixed_db" "2 \<in> phrase_id ` set (phrases mixed_db)" by code_simp+
  have c: "mixed_db\<lparr>phrases := map (\<lambda>p. if phrase_id p = 2
                                        then p\<lparr>completed := True, updated_at := 20\<rparr> else p)
                                 (phrases mixed_db)\<rparr>
           = \<lparr>phrases = [row 1 ''B1'' False 5, row 2 ''A2'' True 20, row 3 ''A2'' False 4,
                  row 4 ''A1'' True 1], seq = 4\<rparr>"
    by code_simp
  have n: "length (filter (\<lambda>p. phrase_id p = 2) (phrases mixed_db)) = 1" by code_simp
  from updateStatus_reports_changes[of mixed_db 20 9 True] a
  have 1: "updateStatus mixed_db 20 9 True = (mixed_db, 9, 0)" by blast
  from updateStatus_reports_changes[of mixed_db 20 2 True] b
  have 2: "snd (snd (updateStatus mixed_db 20 2 True)) = 1" by blast
  from updateStatus_reports_changes[of mixed_db 20 2 True] c n
  have 3: "updateStatus mixed_db 20 2 True =
     (\<lparr>phrases = [row 1 ''B1'' False 5, row 2 ''A2'' True 20, row 3 ''A2'' False 4,
                  row 4 ''A1'' True 1], seq = 4\<rparr>, 2, 1)" by simp
  from a b 1 2 3 show ?thesis by simp
qed

end
